theory Spec2Isabelle
  imports Main "HOL-Library.Multiset"
begin

section \<open>The content checker: a shallow embedding of contentchecker.py\<close>

text \<open>
  The module checks, for a list of SKU codes, whether the product page of each code on a
  retailer site carries a content marker. \<open>fetch_product_page\<close> searches the site for the
  code (with retries), \<open>check_product_content\<close> fetches the product page found, and
  \<open>process_skus\<close> runs the codes in batches.

  The network, the HTML parser and the orders in which the event loop schedules the
  concurrent tasks and in which they finish are outside the module; they are parameters
  of the model. Everything the module does beyond
  returning a value (requests, sleeps, log calls, progress callbacks) is recorded in a
  trace.
\<close>

subsection \<open>Constants\<close>

definition BATCH_SIZE :: nat where
  "BATCH_SIZE = 50"

definition RETRY_COUNT :: nat where
  "RETRY_COUNT = 3"

definition TIMEOUT :: nat where
  "TIMEOUT = 30"

subsection \<open>Data\<close>

text \<open>
  The exceptions of the model. \<open>TimeoutError\<close> is \<open>asyncio.TimeoutError\<close>; \<open>ClientError\<close>
  stands for every other subclass of \<open>Exception\<close> that a request, the reading of a body or
  the parser raises; \<open>NameError\<close> is what Python raises when a local variable is read before it is
  assigned (\<open>UnboundLocalError\<close>, a subclass of \<open>NameError\<close>).
\<close>

datatype exn = TimeoutError | ClientError | NameError

text \<open>
  The status column of a result: the strings \<open>"Sim"\<close>, \<open>"N\~ao"\<close> and \<open>"Erro"\<close> of the
  source (found, not found, error).
\<close>

datatype status = Sim | Nao | Erro

text \<open>A result tuple \<open>(code, url, status)\<close>.\<close>

type_synonym result = "string \<times> string \<times> status"

text \<open>
  What \<open>session.get(url, timeout=TIMEOUT)\<close> gives: an exception, or a response with its
  status code and what \<open>await response.text()\<close> gives (an exception or the body). The
  oracle is asked with the number of requests the pipeline has issued before and the URL.
\<close>

type_synonym response = "exn + (nat \<times> (exn + string))"

type_synonym http = "nat \<Rightarrow> string \<Rightarrow> response"

text \<open>
  An element of the parsed document is the association list of its attributes. The
  parser is a parameter with the two calls the module makes: \<open>make_soup html\<close> is
  \<open>BeautifulSoup(html, 'html.parser')\<close>, which builds the document (\<open>None\<close>) or raises
  (\<open>Some e\<close>), and \<open>find_anchor html id\<close> is \<open>soup.find('a', id=...)\<close> on the document of
  \<open>html\<close>, which raises or gives the first such anchor, if any.
\<close>

type_synonym tag = "(string \<times> string) list"

record parser =
  make_soup :: "string \<Rightarrow> exn option"
  find_anchor :: "string \<Rightarrow> string \<Rightarrow> exn + tag option"

definition has_attr :: "tag \<Rightarrow> string \<Rightarrow> bool" where
  "has_attr t k = (map_of t k \<noteq> None)"

datatype level = WARNING | ERROR

text \<open>The effects of one pipeline, in the order they happen.\<close>

datatype effect = Get string nat | Sleep nat | Log level

fun is_get :: "effect \<Rightarrow> bool" where
  "is_get (Get u t) = True"
| "is_get e = False"

fun is_sleep :: "effect \<Rightarrow> bool" where
  "is_sleep (Sleep s) = True"
| "is_sleep e = False"

fun is_log :: "effect \<Rightarrow> bool" where
  "is_log (Log l) = True"
| "is_log e = False"

definition gets :: "effect list \<Rightarrow> nat" where
  "gets tr = length (filter is_get tr)"

definition sleeps :: "effect list \<Rightarrow> nat" where
  "sleeps tr = length (filter is_sleep tr)"

text \<open>Python's \<open>needle in hay\<close> on strings: \<open>needle\<close> occurs as a contiguous substring.\<close>

fun contains :: "string \<Rightarrow> string \<Rightarrow> bool" where
  "contains needle [] = (needle = [])"
| "contains needle (h # hs) =
     (take (length needle) (h # hs) = needle \<or> contains needle hs)"

subsection \<open>check\_product\_content\<close>

text \<open>
  One request inside \<open>try\<close>. A response with status 200 returns \<open>"Sim"\<close> or \<open>"N\~ao"\<close>; any
  other status leaves the \<open>with\<close> block without returning; both handlers log and fall
  through to the final \<open>return code, product_url, "Erro"\<close>.
\<close>

definition check_product_content ::
  "http \<Rightarrow> effect list \<Rightarrow> string \<Rightarrow> string \<Rightarrow> effect list \<times> result" where
  "check_product_content session tr product_url code =
     (let tr1 = tr @ [Get product_url TIMEOUT] in
      case session (gets tr) product_url of
        Inr (st, body) \<Rightarrow>
          if st = 200 then
            (case body of
               Inr html \<Rightarrow>
                 (tr1, (code, product_url,
                    if contains ''lp-container'' html then Sim else Nao))
             | Inl e \<Rightarrow>
                 (tr1 @ [Log (if e = TimeoutError then WARNING else ERROR)],
                  (code, product_url, Erro)))
          else (tr1, (code, product_url, Erro))
      | Inl e \<Rightarrow>
          (tr1 @ [Log (if e = TimeoutError then WARNING else ERROR)],
           (code, product_url, Erro)))"

subsection \<open>fetch\_product\_page\<close>

text \<open>
  The local variable \<open>search_url\<close> is assigned only when \<open>option == "efacil"\<close>; it is
  \<open>None\<close> here while unassigned, and reading it then raises \<open>NameError\<close>.
\<close>

definition build_search_url :: "string \<Rightarrow> string \<Rightarrow> string \<Rightarrow> string option" where
  "build_search_url base_url code option =
     (if option = ''efacil'' then Some (base_url @ ''/loja/busca/?searchTerm='' @ code)
      else None)"

text \<open>
  The body of the \<open>try\<close> of one attempt. It raises (\<open>Inl\<close>), returns a result from the
  function (\<open>Inr (tr, Some r)\<close>), or falls out of the \<open>with\<close> block (\<open>Inr (tr, None)\<close>).
  The request, the reading of the body, the construction of the document and the search
  for the anchor are all inside the \<open>try\<close>, so what any of them raises reaches the
  handlers.
\<close>

definition try_body ::
  "http \<Rightarrow> parser \<Rightarrow> string \<Rightarrow> string \<Rightarrow> string \<Rightarrow> string option \<Rightarrow> effect list
     \<Rightarrow> (exn \<times> effect list) + (effect list \<times> result option)" where
  "try_body session bs base_url code option search_url tr =
     (case search_url of
        None \<Rightarrow> Inl (NameError, tr)
      | Some u \<Rightarrow>
          (let tr1 = tr @ [Get u TIMEOUT] in
           case session (gets tr) u of
             Inl e \<Rightarrow> Inl (e, tr1)
           | Inr (st, body) \<Rightarrow>
               if st = 200 then
                 (case body of
                    Inl e \<Rightarrow> Inl (e, tr1)
                  | Inr html \<Rightarrow>
                      (case make_soup bs html of
                         Some e \<Rightarrow> Inl (e, tr1)
                       | None \<Rightarrow>
                           if option = ''efacil'' then
                             (case find_anchor bs html (''btn_skuP'' @ code) of
                                Inl e \<Rightarrow> Inl (e, tr1)
                              | Inr None \<Rightarrow>
                                  Inr (tr1 @ [Log WARNING], Some (code, u, Erro))
                              | Inr (Some link_tag) \<Rightarrow>
                                  if has_attr link_tag ''href'' then
                                    (case check_product_content session tr1
                                            (base_url @ the (map_of link_tag ''href'')) code of
                                       (tr2, r) \<Rightarrow> Inr (tr2, Some r))
                                  else Inr (tr1 @ [Log WARNING], Some (code, u, Erro)))
                           else Inr (tr1, Some (code, u, Erro))))
               else Inr (tr1, None)))"

text \<open>
  The two handlers. \<open>except asyncio.TimeoutError\<close> logs a warning that reads \<open>code\<close> and
  \<open>attempt\<close>; \<open>except Exception as e\<close> logs an error whose message reads \<open>search_url\<close>, so
  it raises \<open>NameError\<close> itself when \<open>search_url\<close> is unassigned.
\<close>

definition handler :: "string option \<Rightarrow> exn \<Rightarrow> effect list \<Rightarrow> exn + effect list" where
  "handler search_url e tr =
     (if e = TimeoutError then Inr (tr @ [Log WARNING])
      else (case search_url of
              None \<Rightarrow> Inl NameError
            | Some u \<Rightarrow> Inr (tr @ [Log ERROR])))"

text \<open>
  The loop \<open>for attempt in range(retries)\<close>, by recursion on the attempts that remain.
  An attempt that does not return is followed by \<open>await asyncio.sleep(1)\<close>; after the
  loop the function returns \<open>code, search_url, "Erro"\<close>.
\<close>

fun attempts ::
  "http \<Rightarrow> parser \<Rightarrow> string \<Rightarrow> string \<Rightarrow> string \<Rightarrow> string option \<Rightarrow> nat \<Rightarrow> effect list
     \<Rightarrow> exn + (effect list \<times> result)" where
  "attempts session bs base_url code option search_url 0 tr =
     (case search_url of
        None \<Rightarrow> Inl NameError
      | Some u \<Rightarrow> Inr (tr, (code, u, Erro)))"
| "attempts session bs base_url code option search_url (Suc n) tr =
     (case try_body session bs base_url code option search_url tr of
        Inr (tr1, Some r) \<Rightarrow> Inr (tr1, r)
      | Inr (tr1, None) \<Rightarrow>
          attempts session bs base_url code option search_url n (tr1 @ [Sleep 1])
      | Inl (e, tr1) \<Rightarrow>
          (case handler search_url e tr1 of
             Inl e' \<Rightarrow> Inl e'
           | Inr tr2 \<Rightarrow>
               attempts session bs base_url code option search_url n (tr2 @ [Sleep 1])))"

definition fetch_product_page ::
  "http \<Rightarrow> parser \<Rightarrow> string \<Rightarrow> string \<Rightarrow> string \<Rightarrow> nat \<Rightarrow> exn + (effect list \<times> result)" where
  "fetch_product_page session bs base_url code option retries =
     attempts session bs base_url code option
       (build_search_url base_url code option) retries []"

subsection \<open>process\_skus\<close>

text \<open>
  What a run does beyond returning: \<open>Started j\<close> when the pipeline of the code at index
  \<open>j\<close> is scheduled, \<open>Completed j\<close> when awaiting it returns its result, and \<open>Progress n\<close>
  for the call \<open>progress_callback(n)\<close>.
\<close>

datatype event = Started nat | Completed nat | Progress nat

record run_state =
  results :: "result list"
  events :: "event list"

text \<open>
  The world outside the module: the network as seen by the pipeline of each index, the
  parser, and two orders the event loop decides. For the batch flushed at loop index
  \<open>i\<close>, \<open>start i s\<close> picks which pipeline is scheduled next among those not yet scheduled
  after \<open>s\<close> of them were, and \<open>order i s\<close> picks which pipeline finishes next among those
  still pending after \<open>s\<close> completions.
\<close>

record world =
  net :: "nat \<Rightarrow> http"
  parse :: parser
  start :: "nat \<Rightarrow> nat \<Rightarrow> nat"
  order :: "nat \<Rightarrow> nat \<Rightarrow> nat"

definition base_urls :: "(string \<times> string) list" where
  "base_urls =
     [(''martins'', ''https://www.martinsatacado.com.br''),
      (''efacil'', ''https://www.efacil.com.br'')]"

text \<open>
  An order decided outside the module is a permutation of the list, here the one an
  oracle \<open>pick\<close> picks step by step: at step \<open>s\<close> it takes the element at position
  \<open>pick s\<close> (modulo their number) of those that remain.
\<close>

function pick_order :: "(nat \<Rightarrow> nat) \<Rightarrow> nat \<Rightarrow> 'a list \<Rightarrow> 'a list" where
  "pick_order pick s [] = []"
| "pick_order pick s (x # xs) =
     (let k = pick s mod length (x # xs) in
      (x # xs) ! k # pick_order pick (Suc s) (take k (x # xs) @ drop (Suc k) (x # xs)))"
  by pat_completeness auto
termination
  by (relation "measure (\<lambda>(pick, s, xs). length xs)") auto

text \<open>
  \<open>asyncio.as_completed(tasks)\<close> wraps every awaitable of \<open>tasks\<close> into a task of the
  event loop, iterating over \<open>set(tasks)\<close>, so in no particular order (\<open>scheduled\<close>), and
  then yields them in the order they finish (\<open>as_completed\<close>).
\<close>

definition scheduled :: "(nat \<Rightarrow> nat) \<Rightarrow> 'a list \<Rightarrow> 'a list" where
  "scheduled pick tasks = pick_order pick 0 tasks"

definition as_completed :: "(nat \<Rightarrow> nat) \<Rightarrow> 'a list \<Rightarrow> 'a list" where
  "as_completed pick tasks = pick_order pick 0 tasks"

text \<open>
  The inner loop \<open>for task in asyncio.as_completed(tasks)\<close>: \<open>await task\<close> returns the
  result of the pipeline or raises what the pipeline raised; a result is appended and the
  callback is called with \<open>i + 1\<close>, passed here as \<open>n\<close>.
\<close>

fun await_each :: "nat \<Rightarrow> (nat \<times> (exn + result)) list \<Rightarrow> run_state \<Rightarrow> exn + run_state" where
  "await_each n [] st = Inr st"
| "await_each n ((j, out) # ts) st =
     (case out of
        Inl e \<Rightarrow> Inl e
      | Inr r \<Rightarrow>
          await_each n ts
            (st\<lparr>results := results st @ [r],
                events := events st @ [Completed j, Progress n]\<rparr>))"

text \<open>The pipeline of the code at index \<open>j\<close>, as \<open>process_skus\<close> creates it.\<close>

definition pipeline :: "world \<Rightarrow> string \<Rightarrow> string \<Rightarrow> nat \<times> string \<Rightarrow> nat \<times> (exn + result)" where
  "pipeline w base_url option t =
     (fst t,
      map_sum id snd
        (fetch_product_page (net w (fst t)) (parse w) base_url (snd t) option RETRY_COUNT))"

text \<open>
  The batch: \<open>as_completed\<close> schedules every pipeline of \<open>tasks\<close>, then the inner loop
  awaits them as they finish.
\<close>

definition run_batch ::
  "world \<Rightarrow> string \<Rightarrow> string \<Rightarrow> nat \<Rightarrow> (nat \<times> string) list \<Rightarrow> run_state \<Rightarrow> exn + run_state" where
  "run_batch w base_url option i tasks st =
     await_each (i + 1)
       (as_completed (order w i) (map (pipeline w base_url option) tasks))
       (st\<lparr>events := events st @ map (\<lambda>t. Started (fst t)) (scheduled (start w i) tasks)\<rparr>)"

text \<open>
  The loop \<open>for i, code in enumerate(codes)\<close>, with the list \<open>tasks\<close> and the state
  threaded through.
\<close>

fun dispatch ::
  "world \<Rightarrow> string \<Rightarrow> string \<Rightarrow> nat \<Rightarrow> (nat \<times> string) list \<Rightarrow> (nat \<times> string) list
     \<Rightarrow> run_state \<Rightarrow> exn + run_state" where
  "dispatch w base_url option len [] tasks st = Inr st"
| "dispatch w base_url option len ((i, code) # rest) tasks st =
     (let tasks1 = tasks @ [(i, code)] in
      if length tasks1 \<ge> BATCH_SIZE \<or> int i = int len - 1 then
        (case run_batch w base_url option i tasks1 st of
           Inl e \<Rightarrow> Inl e
         | Inr st1 \<Rightarrow> dispatch w base_url option len rest [] st1)
      else dispatch w base_url option len rest tasks1 st)"

definition process_skus :: "world \<Rightarrow> string \<Rightarrow> string list \<Rightarrow> exn + run_state" where
  "process_skus w option codes =
     (let base_url = (case map_of base_urls option of Some u \<Rightarrow> u | None \<Rightarrow> '''') in
      if base_url = '''' then Inr \<lparr>results = [], events = []\<rparr>
      else dispatch w base_url option (length codes) (enumerate 0 codes) []
             \<lparr>results = [], events = []\<rparr>)"

subsection \<open>Notions of the specification and sample worlds\<close>

text \<open>
  A response that the search stage treats as a reason to try again: the request raised,
  the status is not 200, or reading the body raised.
\<close>

definition transient :: "response \<Rightarrow> bool" where
  "transient r = (case r of Inl e \<Rightarrow> True | Inr (st, body) \<Rightarrow> st \<noteq> 200 \<or> isl body)"



text \<open>The number of requests and of sleeps of a pipeline that returned.\<close>

definition attempts_and_sleeps :: "exn + (effect list \<times> result) \<Rightarrow> (nat \<times> nat) option" where
  "attempts_and_sleeps out =
     (case out of Inl e \<Rightarrow> None | Inr (tr, r) \<Rightarrow> Some (gets tr, sleeps tr))"

text \<open>A site that answers every request with status 500, and a page without the anchor.\<close>

definition always_500 :: http where
  "always_500 k u = Inr (500, Inr '''')"

definition no_anchor :: parser where
  "no_anchor = \<lparr>make_soup = (\<lambda>html. None), find_anchor = (\<lambda>html i. Inr None)\<rparr>"

text \<open>
  A product page with the marker, a page without marker or anchor, and a site that never
  answers in time.
\<close>

definition page_with_marker :: http where
  "page_with_marker k u = Inr (200, Inr ''<div class=lp-container></div>'')"

definition page_plain :: http where
  "page_plain k u = Inr (200, Inr ''<html></html>'')"

definition timing_out :: http where
  "timing_out k u = Inl TimeoutError"


definition broken_parser :: parser where
  "broken_parser =
     \<lparr>make_soup = (\<lambda>html. Some ClientError), find_anchor = (\<lambda>html i. Inr None)\<rparr>"

text \<open>
  The groups of the specification: \<open>chunks n xs\<close> cuts \<open>xs\<close> into contiguous pieces of
  \<open>n\<close> elements, the last one possibly shorter.
\<close>

function chunks :: "nat \<Rightarrow> 'a list \<Rightarrow> 'a list list" where
  "chunks n xs = (if n = 0 \<or> xs = [] then [] else take n xs # chunks n (drop n xs))"
  by pat_completeness auto
termination
  by (relation "measure (\<lambda>(n, xs). length xs)") auto

declare chunks.simps [simp del]

text \<open>
  Running given groups one after the other, each as one batch flushed at the index of
  its last code.
\<close>

fun run_groups ::
  "world \<Rightarrow> string \<Rightarrow> string \<Rightarrow> (nat \<times> string) list list \<Rightarrow> run_state \<Rightarrow> exn + run_state" where
  "run_groups w base_url option [] st = Inr st"
| "run_groups w base_url option (g # gs) st =
     (case run_batch w base_url option (fst (last g)) g st of
        Inl e \<Rightarrow> Inl e
      | Inr st1 \<Rightarrow> run_groups w base_url option gs st1)"

text \<open>
  The codes of a group in the order their pipelines are scheduled, and in the order they
  finish.
\<close>

definition launched :: "world \<Rightarrow> (nat \<times> string) list \<Rightarrow> (nat \<times> string) list" where
  "launched w g = scheduled (start w (fst (last g))) g"

definition finished :: "world \<Rightarrow> (nat \<times> string) list \<Rightarrow> (nat \<times> string) list" where
  "finished w g = as_completed (order w (fst (last g))) g"

text \<open>
  What a group contributes to the events of a run: all its pipelines start, then each
  completion is followed by the callback with one plus the index of the last code of
  the group.
\<close>

definition batch_events :: "world \<Rightarrow> (nat \<times> string) list \<Rightarrow> event list" where
  "batch_events w g =
     map (\<lambda>t. Started (fst t)) (launched w g)
     @ concat (map (\<lambda>t. [Completed (fst t), Progress (Suc (fst (last g)))]) (finished w g))"

text \<open>The arguments of the calls of the callback, in order.\<close>

fun progress_values :: "event list \<Rightarrow> nat list" where
  "progress_values [] = []"
| "progress_values (Progress n # es) = n # progress_values es"
| "progress_values (e # es) = progress_values es"

text \<open>The indices of the pipelines that completed, in the order they did.\<close>

fun completions :: "event list \<Rightarrow> nat list" where
  "completions [] = []"
| "completions (Completed j # es) = j # completions es"
| "completions (e # es) = completions es"

text \<open>
  \<open>in_flight_ok b c es\<close>: along \<open>es\<close>, starting with \<open>c\<close> pipelines in flight, never more
  than \<open>b\<close> pipelines are started and not yet completed.
\<close>

fun in_flight_ok :: "nat \<Rightarrow> nat \<Rightarrow> event list \<Rightarrow> bool" where
  "in_flight_ok b c [] = True"
| "in_flight_ok b c (Started j # es) = (Suc c \<le> b \<and> in_flight_ok b (Suc c) es)"
| "in_flight_ok b c (Completed j # es) = in_flight_ok b (c - 1) es"
| "in_flight_ok b c (Progress n # es) = in_flight_ok b c es"

fun in_flight :: "nat \<Rightarrow> event list \<Rightarrow> nat" where
  "in_flight c [] = c"
| "in_flight c (Started j # es) = in_flight (Suc c) es"
| "in_flight c (Completed j # es) = in_flight (c - 1) es"
| "in_flight c (Progress n # es) = in_flight c es"

text \<open>
  \<open>progress_after f es\<close>: in \<open>es\<close> every completion of a pipeline, of index \<open>j\<close> say, is
  followed at once by one call of the callback, with the argument \<open>f j\<close>, and the
  callback is not called otherwise.
\<close>

fun progress_after :: "(nat \<Rightarrow> nat) \<Rightarrow> event list \<Rightarrow> bool" where
  "progress_after f [] = True"
| "progress_after f (Completed j # Progress n # es) = (n = f j \<and> progress_after f es)"
| "progress_after f (Completed j # es) = False"
| "progress_after f (Progress n # es) = False"
| "progress_after f (Started j # es) = progress_after f es"

text \<open>
  A world where every request is answered with status 500 and the pipelines of a batch
  are scheduled and finish in the order they were created, and one where they are
  scheduled and finish in other orders.
\<close>

definition sample_world :: world where
  "sample_world =
     \<lparr>net = (\<lambda>j. always_500), parse = no_anchor, start = (\<lambda>i s. 0), order = (\<lambda>i s. 0)\<rparr>"

definition shuffled_world :: world where
  "shuffled_world =
     \<lparr>net = (\<lambda>j. always_500), parse = no_anchor, start = (\<lambda>i s. 2), order = (\<lambda>i s. 1)\<rparr>"

text \<open>Fifty-one codes, \<open>00\<close> to \<open>50\<close>: one full batch and one more code.\<close>

definition sample_codes :: "string list" where
  "sample_codes =
     concat (map (\<lambda>a. map (\<lambda>b. [a, b]) ''0123456789'') ''01234'') @ [''50'']"

text \<open>The events of a run that returned; none for a run that raised.\<close>

definition events_of :: "exn + run_state \<Rightarrow> event list" where
  "events_of out = (case out of Inl e \<Rightarrow> [] | Inr st \<Rightarrow> events st)"

text \<open>
  The group that holds the code at index \<open>j\<close>, and the value of the loop counter
  \<open>i + 1\<close> when that group is flushed: one plus the index of its last code.
\<close>

definition group_of :: "string list \<Rightarrow> nat \<Rightarrow> (nat \<times> string) list" where
  "group_of codes j = chunks BATCH_SIZE (enumerate 0 codes) ! (j div BATCH_SIZE)"

definition dispatch_counter :: "string list \<Rightarrow> nat \<Rightarrow> nat" where
  "dispatch_counter codes j = Suc (fst (last (group_of codes j)))"

section \<open>Properties\<close>

subsection \<open>Counting effects\<close>

lemma gets_append [simp]: "gets (xs @ ys) = gets xs + gets ys"
  by (simp add: gets_def)

lemma sleeps_append [simp]: "sleeps (xs @ ys) = sleeps xs + sleeps ys"
  by (simp add: sleeps_def)

lemma gets_simps [simp]:
  "gets [] = 0" "gets (Get u t # tr) = Suc (gets tr)"
  "gets (Sleep s # tr) = gets tr" "gets (Log l # tr) = gets tr"
  by (simp_all add: gets_def)

lemma sleeps_simps [simp]:
  "sleeps [] = 0" "sleeps (Get u t # tr) = sleeps tr"
  "sleeps (Sleep s # tr) = Suc (sleeps tr)" "sleeps (Log l # tr) = sleeps tr"
  by (simp_all add: sleeps_def)

subsection \<open>The search stage under transient failures\<close>

lemma try_body_transient:
  assumes "transient (session (gets tr) u)"
  shows "(\<exists>e. try_body session bs base_url code option (Some u) tr
              = Inl (e, tr @ [Get u TIMEOUT]))
       \<or> try_body session bs base_url code option (Some u) tr
              = Inr (tr @ [Get u TIMEOUT], None)"
  using assms
  by (auto simp: try_body_def transient_def Let_def split: sum.splits prod.splits)

lemma handler_bound:
  "\<exists>l. handler (Some u) e tr = Inr (tr @ [Log l])"
  by (simp add: handler_def)

text \<open>
  One failed attempt is a request, at most one log call, and a sleep; then the loop goes
  on with one attempt less.
\<close>

lemma attempts_transient:
  "\<forall>k<n. transient (session (gets tr + k) u) \<Longrightarrow>
   \<exists>tr'. attempts session bs base_url code option (Some u) n tr
            = Inr (tr', (code, u, Erro))
        \<and> filter (\<lambda>e. \<not> is_log e) tr'
            = filter (\<lambda>e. \<not> is_log e) tr @ concat (replicate n [Get u TIMEOUT, Sleep 1])
        \<and> gets tr' = gets tr + n \<and> sleeps tr' = sleeps tr + n"
proof (induction n arbitrary: tr)
  case 0
  then show ?case by simp
next
  case (Suc n)
  from Suc.prems have t0: "transient (session (gets tr) u)"
    by (metis add.right_neutral zero_less_Suc)
  let ?g = "tr @ [Get u TIMEOUT]"
  have step: "\<exists>tr1. (\<forall>k<n. transient (session (gets (tr1 @ [Sleep 1]) + k) u))
      \<and> filter (\<lambda>e. \<not> is_log e) (tr1 @ [Sleep 1])
            = filter (\<lambda>e. \<not> is_log e) tr @ [Get u TIMEOUT, Sleep 1]
      \<and> gets (tr1 @ [Sleep 1]) = Suc (gets tr) \<and> sleeps (tr1 @ [Sleep 1]) = Suc (sleeps tr)
      \<and> attempts session bs base_url code option (Some u) (Suc n) tr
          = attempts session bs base_url code option (Some u) n (tr1 @ [Sleep 1])"
  proof -
    have shift: "\<forall>k<n. transient (session (Suc (gets tr) + k) u)"
      using Suc.prems by (metis Suc_less_eq add_Suc_shift)
    from t0 have "(\<exists>e. try_body session bs base_url code option (Some u) tr = Inl (e, ?g))
        \<or> try_body session bs base_url code option (Some u) tr = Inr (?g, None)"
      by (rule try_body_transient)
    then show ?thesis
    proof
      assume "\<exists>e. try_body session bs base_url code option (Some u) tr = Inl (e, ?g)"
      then obtain e where
        e: "try_body session bs base_url code option (Some u) tr = Inl (e, ?g)" ..
      obtain l where l: "handler (Some u) e ?g = Inr (?g @ [Log l])"
        using handler_bound by blast
      show ?thesis
        by (rule exI [of _ "?g @ [Log l]"]) (use e l shift in simp)
    next
      assume f: "try_body session bs base_url code option (Some u) tr = Inr (?g, None)"
      show ?thesis
        by (rule exI [of _ ?g]) (use f shift in simp)
    qed
  qed
  then obtain tr1 where
    a: "\<forall>k<n. transient (session (gets (tr1 @ [Sleep 1]) + k) u)" and
    b: "filter (\<lambda>e. \<not> is_log e) (tr1 @ [Sleep 1])
            = filter (\<lambda>e. \<not> is_log e) tr @ [Get u TIMEOUT, Sleep 1]" and
    c: "gets (tr1 @ [Sleep 1]) = Suc (gets tr)" "sleeps (tr1 @ [Sleep 1]) = Suc (sleeps tr)" and
    d: "attempts session bs base_url code option (Some u) (Suc n) tr
          = attempts session bs base_url code option (Some u) n (tr1 @ [Sleep 1])"
    by blast
  from Suc.IH [OF a] obtain tr' where
    r: "attempts session bs base_url code option (Some u) n (tr1 @ [Sleep 1])
            = Inr (tr', (code, u, Erro))" and
    f: "filter (\<lambda>e. \<not> is_log e) tr'
            = filter (\<lambda>e. \<not> is_log e) (tr1 @ [Sleep 1])
              @ concat (replicate n [Get u TIMEOUT, Sleep 1])" and
    g: "gets tr' = gets (tr1 @ [Sleep 1]) + n" "sleeps tr' = sleeps (tr1 @ [Sleep 1]) + n"
    by blast
  show ?case
    by (rule exI [of _ tr']) (use r f g b c d in simp)
qed

text \<open>
  Claim C1, as the specification states it: when all three search attempts fail on
  transient conditions there are three attempts and two sleeps. The source sleeps after
  every failed attempt, the last one included: on a site that always answers 500 the
  pipeline makes three requests and sleeps three times.
\<close>

theorem retry_backoff_sleeps_counterexample:
  "attempts_and_sleeps
     (fetch_product_page always_500 no_anchor ''https://www.efacil.com.br'' ''12345''
        ''efacil'' RETRY_COUNT) = Some (3, 3)
   \<and> attempts_and_sleeps
     (fetch_product_page always_500 no_anchor ''https://www.efacil.com.br'' ''12345''
        ''efacil'' RETRY_COUNT) \<noteq> Some (3, 2)"
  by (simp add: fetch_product_page_def build_search_url_def RETRY_COUNT_def numeral_3_eq_3
      try_body_def always_500_def attempts_and_sleeps_def)

text \<open>
  Claim C1, amended: for the option \<open>efacil\<close>, when each of the \<open>retries\<close> search attempts
  meets a transient condition (the request raises, the status is not 200, or reading the
  body raises), the pipeline issues exactly \<open>retries\<close> requests to the search URL with
  the fixed timeout, each followed by a sleep of one second (so \<open>retries\<close> sleeps, one
  after every failed attempt including the last), and returns the code, the search URL
  and \<open>Erro\<close>.
\<close>

theorem search_transient_attempts:
  assumes "\<forall>k<retries. transient (session k (base_url @ ''/loja/busca/?searchTerm='' @ code))"
  shows "\<exists>tr. fetch_product_page session bs base_url code ''efacil'' retries
              = Inr (tr, (code, base_url @ ''/loja/busca/?searchTerm='' @ code, Erro))
            \<and> filter (\<lambda>e. \<not> is_log e) tr
              = concat (replicate retries
                  [Get (base_url @ ''/loja/busca/?searchTerm='' @ code) TIMEOUT, Sleep 1])
            \<and> gets tr = retries \<and> sleeps tr = retries"
  using attempts_transient [of retries session "[]" _ bs base_url code "''efacil''"] assms
  by (simp add: fetch_product_page_def build_search_url_def)

theorem search_transient_attempts_witness:
  "transient (always_500 0 ''https://www.efacil.com.br/loja/busca/?searchTerm=12345'')
   \<and> transient (always_500 1 ''https://www.efacil.com.br/loja/busca/?searchTerm=12345'')
   \<and> transient (always_500 2 ''https://www.efacil.com.br/loja/busca/?searchTerm=12345'')
   \<and> (\<exists>tr. fetch_product_page always_500 no_anchor ''https://www.efacil.com.br'' ''12345''
              ''efacil'' 3
            = Inr (tr, (''12345'',
                 ''https://www.efacil.com.br/loja/busca/?searchTerm=12345'', Erro))
          \<and> filter (\<lambda>e. \<not> is_log e) tr
            = [Get ''https://www.efacil.com.br/loja/busca/?searchTerm=12345'' TIMEOUT, Sleep 1,
               Get ''https://www.efacil.com.br/loja/busca/?searchTerm=12345'' TIMEOUT, Sleep 1,
               Get ''https://www.efacil.com.br/loja/busca/?searchTerm=12345'' TIMEOUT, Sleep 1]
          \<and> gets tr = 3 \<and> sleeps tr = 3)"
proof -
  have h: "\<forall>k<3. transient
      (always_500 k (''https://www.efacil.com.br'' @ ''/loja/busca/?searchTerm='' @ ''12345''))"
    by (simp add: transient_def always_500_def)
  from search_transient_attempts
         [where retries = 3 and session = always_500
            and base_url = "''https://www.efacil.com.br''" and code = "''12345''"
            and bs = no_anchor, OF h]
  show ?thesis
    by (simp add: transient_def always_500_def numeral_3_eq_3)
qed

subsection \<open>The check stage\<close>

text \<open>
  Claim C5: for every product URL the check stage issues exactly one request, with the
  fixed timeout, and never sleeps or tries again, whatever the failure. It returns \<open>Sim\<close>
  (found) when the status is 200 and the body contains the marker, \<open>Nao\<close> (not found)
  when the status is 200 and the body lacks it, and \<open>Erro\<close> when the status is not 200,
  when the request times out or raises, and when reading the body does.
\<close>

theorem check_stage_single_request:
  "filter (\<lambda>e. \<not> is_log e) (fst (check_product_content session tr product_url code))
     = filter (\<lambda>e. \<not> is_log e) tr @ [Get product_url TIMEOUT]
   \<and> gets (fst (check_product_content session tr product_url code)) = gets tr + 1
   \<and> sleeps (fst (check_product_content session tr product_url code)) = sleeps tr
   \<and> (\<forall>html. session (gets tr) product_url = Inr (200, Inr html)
          \<and> contains ''lp-container'' html
        \<longrightarrow> snd (check_product_content session tr product_url code)
              = (code, product_url, Sim))
   \<and> (\<forall>html. session (gets tr) product_url = Inr (200, Inr html)
          \<and> \<not> contains ''lp-container'' html
        \<longrightarrow> snd (check_product_content session tr product_url code)
              = (code, product_url, Nao))
   \<and> (\<forall>st body. session (gets tr) product_url = Inr (st, body) \<and> st \<noteq> 200
        \<longrightarrow> snd (check_product_content session tr product_url code)
              = (code, product_url, Erro))
   \<and> (\<forall>e. session (gets tr) product_url = Inl e
             \<or> session (gets tr) product_url = Inr (200, Inl e)
        \<longrightarrow> snd (check_product_content session tr product_url code)
              = (code, product_url, Erro))"
  by (auto simp: check_product_content_def Let_def split: sum.splits prod.splits)

theorem check_stage_single_request_witness:
  "snd (check_product_content page_with_marker [] ''https://www.efacil.com.br/p/12345'' ''12345'')
     = (''12345'', ''https://www.efacil.com.br/p/12345'', Sim)
   \<and> snd (check_product_content page_plain [] ''https://www.efacil.com.br/p/12345'' ''12345'')
     = (''12345'', ''https://www.efacil.com.br/p/12345'', Nao)
   \<and> snd (check_product_content always_500 [] ''https://www.efacil.com.br/p/12345'' ''12345'')
     = (''12345'', ''https://www.efacil.com.br/p/12345'', Erro)
   \<and> snd (check_product_content timing_out [] ''https://www.efacil.com.br/p/12345'' ''12345'')
     = (''12345'', ''https://www.efacil.com.br/p/12345'', Erro)
   \<and> gets (fst (check_product_content timing_out [] ''https://www.efacil.com.br/p/12345''
        ''12345'')) = 1"
proof -
  let ?u = "''https://www.efacil.com.br/p/12345''"
  have a: "page_with_marker (gets []) ?u = Inr (200, Inr ''<div class=lp-container></div>'')
             \<and> contains ''lp-container'' ''<div class=lp-container></div>''"
    by (simp add: page_with_marker_def)
  have b: "page_plain (gets []) ?u = Inr (200, Inr ''<html></html>'')
             \<and> \<not> contains ''lp-container'' ''<html></html>''"
    by (simp add: page_plain_def)
  have c: "always_500 (gets []) ?u = Inr (500, Inr '''') \<and> (500::nat) \<noteq> 200"
    by (simp add: always_500_def)
  have d: "timing_out (gets []) ?u = Inl TimeoutError
             \<or> timing_out (gets []) ?u = Inr (200, Inl TimeoutError)"
    by (simp add: timing_out_def)
  have 1: "snd (check_product_content page_with_marker [] ?u ''12345'') = (''12345'', ?u, Sim)"
    using a check_stage_single_request [of page_with_marker "[]" ?u "''12345''"] by blast
  have 2: "snd (check_product_content page_plain [] ?u ''12345'') = (''12345'', ?u, Nao)"
    using b check_stage_single_request [of page_plain "[]" ?u "''12345''"] by blast
  have 3: "snd (check_product_content always_500 [] ?u ''12345'') = (''12345'', ?u, Erro)"
    using c check_stage_single_request [of always_500 "[]" ?u "''12345''"] by blast
  have 4: "snd (check_product_content timing_out [] ?u ''12345'') = (''12345'', ?u, Erro)"
    using d check_stage_single_request [of timing_out "[]" ?u "''12345''"] by blast
  have 5: "gets (fst (check_product_content timing_out [] ?u ''12345'')) = 1"
    using check_stage_single_request [of timing_out "[]" ?u "''12345''"] by simp
  from 1 2 3 4 5 show ?thesis
    by blast
qed

subsection \<open>The search stage when the page has no product link\<close>






text \<open>
  A page on which the parser raises is not such a page: the attempt is retried, as it is
  for a transient failure.
\<close>

lemma parser_failure_retried:
  "attempts_and_sleeps
     (fetch_product_page page_plain broken_parser ''https://www.efacil.com.br'' ''12345''
        ''efacil'' RETRY_COUNT) = Some (3, 3)"
  by (simp add: fetch_product_page_def build_search_url_def RETRY_COUNT_def numeral_3_eq_3
      try_body_def page_plain_def broken_parser_def handler_def attempts_and_sleeps_def)

subsection \<open>The option martins\<close>

text \<open>
  Claim C2 says that no exception escapes the pipeline of an identifier, for any option
  whose base URL resolves. For the option \<open>martins\<close>, whose base URL is in the table, the
  pipeline of the code \<open>12345\<close> raises \<open>NameError\<close> instead of returning a result.
\<close>

theorem martins_pipeline_raises:
  "fetch_product_page always_500 no_anchor ''https://www.martinsatacado.com.br'' ''12345''
     ''martins'' RETRY_COUNT = Inl NameError"
  by (simp add: fetch_product_page_def build_search_url_def RETRY_COUNT_def numeral_3_eq_3
      try_body_def handler_def)

subsection \<open>Completion order\<close>

lemma pick_order_mset: "mset (pick_order pick s xs) = mset xs"
proof (induction pick s xs rule: pick_order.induct)
  case (1 pick s)
  then show ?case by simp
next
  case (2 pick s x xs)
  let ?ys = "x # xs"
  let ?k = "pick s mod length ?ys"
  have k: "?k < length ?ys" by simp
  have "mset ?ys = mset (take ?k ?ys @ ?ys ! ?k # drop (Suc ?k) ?ys)"
    using id_take_nth_drop [OF k] by simp
  with "2.IH" [of ?k] show ?case
    by (simp add: Let_def del: mod_Suc_eq take_Suc_Cons drop_Suc_Cons nth_Cons_Suc)
qed

lemma pick_order_nonempty:
  "ys \<noteq> [] \<Longrightarrow>
   pick_order pick s ys
     = ys ! (pick s mod length ys)
         # pick_order pick (Suc s)
             (take (pick s mod length ys) ys @ drop (Suc (pick s mod length ys)) ys)"
  by (cases ys) (simp_all add: Let_def)

lemma pick_order_map: "pick_order pick s (map f xs) = map f (pick_order pick s xs)"
proof (induction pick s xs rule: pick_order.induct)
  case (1 pick s)
  then show ?case by simp
next
  case (2 pick s x xs)
  let ?ys = "x # xs"
  let ?k = "pick s mod length ?ys"
  have k: "?k < length ?ys" by simp
  have ne: "map f ?ys \<noteq> []" by simp
  have "pick_order pick s (map f ?ys)
          = map f ?ys ! ?k
              # pick_order pick (Suc s) (map f (take ?k ?ys @ drop (Suc ?k) ?ys))"
    unfolding pick_order_nonempty [OF ne] by (simp only: length_map take_map drop_map map_append)
  also have "\<dots> = f (?ys ! ?k) # map f (pick_order pick (Suc s) (take ?k ?ys @ drop (Suc ?k) ?ys))"
    using "2.IH" [of ?k] nth_map [OF k, of f] by simp
  also have "\<dots> = map f (pick_order pick s ?ys)"
    by (simp add: Let_def)
  finally show ?case .
qed




lemma pick_order_length [simp]: "length (pick_order pick s xs) = length xs"
  using pick_order_mset [of pick s xs] by (metis size_mset)

lemma pick_order_set [simp]: "set (pick_order pick s xs) = set xs"
  using pick_order_mset [of pick s xs] by (metis set_mset_mset)

text \<open>Both the order of scheduling and the order of completion permute the tasks.\<close>

lemma scheduled_mset [simp]: "mset (scheduled pick xs) = mset xs"
  by (simp add: scheduled_def pick_order_mset)

lemma as_completed_mset [simp]: "mset (as_completed pick xs) = mset xs"
  by (simp add: as_completed_def pick_order_mset)

lemma as_completed_map: "as_completed pick (map f xs) = map f (as_completed pick xs)"
  by (simp add: as_completed_def pick_order_map)

subsection \<open>What a batch and a sequence of batches leave behind\<close>

lemma fst_pipeline [simp]: "fst (pipeline w base_url option t) = fst t"
  by (simp add: pipeline_def)

lemma await_each_Inr:
  "await_each n ts st = Inr st' \<Longrightarrow>
   events st' = events st @ concat (map (\<lambda>t. [Completed (fst t), Progress n]) ts)
   \<and> map Inr (results st') = map Inr (results st) @ map snd ts"
proof (induction ts arbitrary: st)
  case Nil
  then show ?case by simp
next
  case (Cons t ts)
  obtain j out where t: "t = (j, out)" by (cases t)
  from Cons.prems obtain r where r: "out = Inr r"
    by (cases out) (simp_all add: t)
  let ?st1 = "st\<lparr>results := results st @ [r], events := events st @ [Completed j, Progress n]\<rparr>"
  from Cons.prems have "await_each n ts ?st1 = Inr st'"
    by (simp add: t r)
  from Cons.IH [OF this] show ?case
    by (simp add: t r)
qed

lemma run_batch_Inr:
  assumes "run_batch w base_url option (fst (last g)) g st = Inr st'"
  shows "events st' = events st @ batch_events w g"
    and "map Inr (results st')
           = map Inr (results st) @ map (\<lambda>t. snd (pipeline w base_url option t)) (finished w g)"
proof -
  let ?ts = "map (pipeline w base_url option) (finished w g)"
  let ?st0 = "st\<lparr>events := events st @ map (\<lambda>t. Started (fst t)) (launched w g)\<rparr>"
  from assms have "await_each (fst (last g) + 1) ?ts ?st0 = Inr st'"
    by (simp add: run_batch_def finished_def launched_def as_completed_map)
  from await_each_Inr [OF this]
  show "events st' = events st @ batch_events w g"
    and "map Inr (results st')
           = map Inr (results st) @ map (\<lambda>t. snd (pipeline w base_url option t)) (finished w g)"
    by (simp_all add: batch_events_def o_def)
qed

lemma run_groups_Inr:
  "run_groups w base_url option gs st = Inr st' \<Longrightarrow>
   events st' = events st @ concat (map (batch_events w) gs)
   \<and> map Inr (results st')
       = map Inr (results st)
         @ concat (map (\<lambda>g. map (\<lambda>t. snd (pipeline w base_url option t)) (finished w g)) gs)"
proof (induction gs arbitrary: st)
  case Nil
  then show ?case by simp
next
  case (Cons g gs)
  from Cons.prems obtain st1 where
    b: "run_batch w base_url option (fst (last g)) g st = Inr st1" and
    r: "run_groups w base_url option gs st1 = Inr st'"
    by (auto split: sum.splits)
  from run_batch_Inr [OF b] Cons.IH [OF r] show ?case
    by simp
qed

subsection \<open>The loop of process\_skus cuts the codes into groups\<close>

lemma chunks_Nil [simp]: "chunks n [] = []"
  by (simp add: chunks.simps)

lemma chunks_step:
  "0 < n \<Longrightarrow> xs \<noteq> [] \<Longrightarrow> chunks n xs = take n xs # chunks n (drop n xs)"
  by (subst chunks.simps) simp

lemma chunks_short:
  "0 < n \<Longrightarrow> xs \<noteq> [] \<Longrightarrow> length xs \<le> n \<Longrightarrow> chunks n xs = [xs]"
  by (simp add: chunks_step)

lemma chunks_full:
  "0 < length xs \<Longrightarrow> chunks (length xs) (xs @ ys) = xs # chunks (length xs) ys"
  by (simp add: chunks_step)

lemma dispatch_run_groups:
  assumes "length tasks < BATCH_SIZE" and "len = k + length cs" and "cs = [] \<longrightarrow> tasks = []"
  shows "dispatch w base_url option len (enumerate k cs) tasks st
           = run_groups w base_url option (chunks BATCH_SIZE (tasks @ enumerate k cs)) st"
  using assms
proof (induction cs arbitrary: k tasks st)
  case Nil
  then show ?case by simp
next
  case (Cons c cs)
  let ?t1 = "tasks @ [(k, c)]"
  have app: "tasks @ enumerate k (c # cs) = ?t1 @ enumerate (Suc k) cs"
    by simp
  have len: "len = Suc k + length cs"
    using Cons.prems(2) by simp
  have last1: "fst (last ?t1) = k"
    by simp
  show ?case
  proof (cases "BATCH_SIZE \<le> length ?t1")
    case True
    then have full: "length ?t1 = BATCH_SIZE"
      using Cons.prems(1) by simp
    have ch: "chunks BATCH_SIZE (?t1 @ enumerate (Suc k) cs)
                = ?t1 # chunks BATCH_SIZE ([] @ enumerate (Suc k) cs)"
      using chunks_full [of ?t1 "enumerate (Suc k) cs"] full by simp
    have ih: "\<And>st1. dispatch w base_url option len (enumerate (Suc k) cs) [] st1
                = run_groups w base_url option (chunks BATCH_SIZE ([] @ enumerate (Suc k) cs)) st1"
      using full len by (intro Cons.IH) simp_all
    show ?thesis
      unfolding app ch using True ih last1
      by (simp add: Let_def split: sum.splits)
  next
    case False
    then have short: "length ?t1 < BATCH_SIZE"
      by simp
    show ?thesis
    proof (cases "cs = []")
      case True
      have ch: "chunks BATCH_SIZE ?t1 = [?t1]"
        using short by (intro chunks_short) simp_all
      show ?thesis
        using True len ch last1 by (simp add: Let_def split: sum.splits)
    next
      case False
      then have ne: "int k \<noteq> int len - 1"
        using len by (cases cs) simp_all
      have ih: "dispatch w base_url option len (enumerate (Suc k) cs) ?t1 st
                = run_groups w base_url option (chunks BATCH_SIZE (?t1 @ enumerate (Suc k) cs)) st"
        using short len False by (intro Cons.IH) simp_all
      show ?thesis
        unfolding app using short ne ih by (simp add: Let_def)
    qed
  qed
qed

lemma process_skus_run_groups:
  assumes "map_of base_urls option = Some base_url"
  shows "process_skus w option codes
           = run_groups w base_url option (chunks BATCH_SIZE (enumerate 0 codes))
               \<lparr>results = [], events = []\<rparr>"
proof -
  have ne: "base_url \<noteq> ''''"
    using assms by (auto simp: base_urls_def split: if_splits)
  have "dispatch w base_url option (length codes) (enumerate 0 codes) [] \<lparr>results = [], events = []\<rparr>
          = run_groups w base_url option (chunks BATCH_SIZE ([] @ enumerate 0 codes))
              \<lparr>results = [], events = []\<rparr>"
    by (intro dispatch_run_groups) (simp_all add: BATCH_SIZE_def)
  then show ?thesis
    using assms ne by (simp add: process_skus_def)
qed

lemma BATCH_SIZE_pos: "0 < BATCH_SIZE"
  by (simp add: BATCH_SIZE_def)

lemma concat_chunks: "0 < n \<Longrightarrow> concat (chunks n xs) = xs"
proof (induction n xs rule: chunks.induct)
  case (1 n xs)
  then show ?case
    by (cases "xs = []") (simp_all add: chunks_step)
qed

lemma chunks_sizes: "0 < n \<Longrightarrow> g \<in> set (chunks n xs) \<Longrightarrow> g \<noteq> [] \<and> length g \<le> n"
proof (induction n xs rule: chunks.induct)
  case (1 n xs)
  show ?case
  proof (cases "xs = []")
    case True
    with "1.prems" show ?thesis by simp
  next
    case False
    with "1.prems" have "g = take n xs \<or> g \<in> set (chunks n (drop n xs))"
      by (simp add: chunks_step)
    then show ?thesis
    proof
      assume "g = take n xs"
      with False "1.prems"(1) show ?thesis by simp
    next
      assume "g \<in> set (chunks n (drop n xs))"
      with "1.IH" False "1.prems"(1) show ?thesis by simp
    qed
  qed
qed

lemma chunks_length_iff: "0 < n \<Longrightarrow> m < length (chunks n xs) \<longleftrightarrow> m * n < length xs"
proof (induction m arbitrary: xs)
  case 0
  then show ?case
    by (cases "xs = []") (simp_all add: chunks_step)
next
  case (Suc m)
  show ?case
  proof (cases "xs = []")
    case True
    then show ?thesis by simp
  next
    case False
    have "Suc m < length (chunks n xs) \<longleftrightarrow> m < length (chunks n (drop n xs))"
      using False Suc.prems by (simp add: chunks_step)
    also have "\<dots> \<longleftrightarrow> m * n < length (drop n xs)"
      using Suc.IH [OF Suc.prems] .
    also have "\<dots> \<longleftrightarrow> Suc m * n < length xs"
      by auto
    finally show ?thesis .
  qed
qed

lemma chunks_nth:
  "0 < n \<Longrightarrow> m < length (chunks n xs) \<Longrightarrow> chunks n xs ! m = take n (drop (m * n) xs)"
proof (induction m arbitrary: xs)
  case 0
  then have "xs \<noteq> []" by auto
  with "0.prems" show ?case by (simp add: chunks_step)
next
  case (Suc m)
  then have ne: "xs \<noteq> []" by auto
  with Suc.prems have "m < length (chunks n (drop n xs))"
    by (simp add: chunks_step)
  from Suc.IH [OF Suc.prems(1) this] ne Suc.prems(1) show ?case
    by (simp add: chunks_step add.commute)
qed

text \<open>The groups of an enumerated list, by position.\<close>

lemma group_length:
  assumes "0 < n" and "m < length (chunks n (enumerate 0 cs))"
  shows "length (chunks n (enumerate 0 cs) ! m) = min n (length cs - m * n)"
    and "m * n < length cs"
  using assms chunks_length_iff [of n m "enumerate 0 cs"]
  by (simp_all add: chunks_nth min.commute)

lemma group_nth:
  assumes "0 < n" and "m < length (chunks n (enumerate 0 cs))"
    and "i < length (chunks n (enumerate 0 cs) ! m)"
  shows "fst (chunks n (enumerate 0 cs) ! m ! i) = m * n + i"
proof -
  have "i < n \<and> i < length cs - m * n"
    using group_length [OF assms(1,2)] assms(3) by simp
  then have l: "i < n" "m * n + i < length cs"
    by linarith+
  then show ?thesis
    using assms(1,2) by (simp add: chunks_nth nth_enumerate_eq)
qed

lemma group_last:
  assumes "0 < n" and "m < length (chunks n (enumerate 0 cs))"
  shows "Suc (fst (last (chunks n (enumerate 0 cs) ! m))) = min (length cs) (Suc m * n)"
proof -
  let ?g = "chunks n (enumerate 0 cs) ! m"
  have len: "length ?g = min n (length cs - m * n)" and lt: "m * n < length cs"
    using group_length [OF assms] by simp_all
  then have ne: "?g \<noteq> []"
    using assms(1) by auto
  have "fst (last ?g) = m * n + (length ?g - 1)"
    using group_nth [OF assms, of "length ?g - 1"] ne
    by (simp add: last_conv_nth)
  then show ?thesis
    using len lt assms(1) by (auto simp: min_def)
qed

subsection \<open>The code of a result\<close>

lemma check_product_content_code:
  "check_product_content session tr product_url code = (tr1, r) \<Longrightarrow> fst r = code"
  by (auto simp: check_product_content_def Let_def split: sum.splits prod.splits if_splits)

lemma try_body_code:
  assumes "try_body session bs base_url code option search_url tr = Inr (tr1, Some r)"
  shows "fst r = code"
proof (cases search_url)
  case None
  with assms show ?thesis by (simp add: try_body_def)
next
  case (Some u)
  with assms show ?thesis
    by (auto simp: try_body_def Let_def dest: check_product_content_code
        split: sum.splits prod.splits if_splits option.splits)
qed

lemma attempts_code:
  "attempts session bs base_url code option search_url n tr = Inr (tr', r)
   \<Longrightarrow> fst r = code"
proof (induction n arbitrary: tr)
  case 0
  then show ?case by (auto split: option.splits)
next
  case (Suc n)
  show ?case
  proof (cases "try_body session bs base_url code option search_url tr")
    case (Inl a)
    obtain e tr1 where a: "a = (e, tr1)" by (cases a)
    from Suc.prems Inl a obtain tr2 where
      "attempts session bs base_url code option search_url n (tr2 @ [Sleep 1])
         = Inr (tr', r)"
      by (auto split: sum.splits)
    then show ?thesis by (rule Suc.IH)
  next
    case (Inr b)
    obtain tr1 ro where b: "b = (tr1, ro)" by (cases b)
    show ?thesis
    proof (cases ro)
      case None
      with Suc.prems Inr b have
        "attempts session bs base_url code option search_url n (tr1 @ [Sleep 1])
           = Inr (tr', r)"
        by simp
      then show ?thesis by (rule Suc.IH)
    next
      case (Some r1)
      with Suc.prems Inr b have "r1 = r" by simp
      with Inr b Some try_body_code show ?thesis by blast
    qed
  qed
qed

lemma pipeline_code:
  assumes "snd (pipeline w base_url option t) = Inr r"
  shows "fst r = snd t"
proof -
  from assms obtain tr where
    "fetch_product_page (net w (fst t)) (parse w) base_url (snd t) option RETRY_COUNT
       = Inr (tr, r)"
    by (cases "fetch_product_page (net w (fst t)) (parse w) base_url (snd t) option RETRY_COUNT")
       (auto simp: pipeline_def)
  then show ?thesis
    unfolding fetch_product_page_def by (rule attempts_code)
qed

subsection \<open>The number of records\<close>

lemma mset_finished [simp]: "mset (finished w g) = mset g"
  by (simp add: finished_def)

lemma length_finished [simp]: "length (finished w g) = length g"
  using mset_finished [of w g] by (metis size_mset)

lemma set_finished [simp]: "set (finished w g) = set g"
  using mset_finished [of w g] by (metis set_mset_mset)

lemma mset_launched [simp]: "mset (launched w g) = mset g"
  by (simp add: launched_def)

lemma length_launched [simp]: "length (launched w g) = length g"
  using mset_launched [of w g] by (metis size_mset)

lemma mset_concat_finished:
  "mset (concat (map (\<lambda>g. map f (finished w g)) gs)) = image_mset f (mset (concat gs))"
  by (induction gs) simp_all

lemma length_concat_finished:
  "length (concat (map (\<lambda>g. map f (finished w g)) gs)) = length (concat gs)"
  by (induction gs) simp_all

lemma unknown_option:
  "map_of base_urls option = None \<Longrightarrow>
   process_skus w option codes = Inr \<lparr>results = [], events = []\<rparr>"
  by (simp add: process_skus_def)

lemma process_skus_Inr:
  assumes "process_skus w option codes = Inr st" and "map_of base_urls option = Some base_url"
  shows "events st = concat (map (batch_events w) (chunks BATCH_SIZE (enumerate 0 codes)))"
    and "map Inr (results st)
           = concat (map (\<lambda>g. map (\<lambda>t. snd (pipeline w base_url option t)) (finished w g))
               (chunks BATCH_SIZE (enumerate 0 codes)))"
  using run_groups_Inr [of w base_url option "chunks BATCH_SIZE (enumerate 0 codes)"
      "\<lparr>results = [], events = []\<rparr>" st]
    assms process_skus_run_groups [OF assms(2), of w codes]
  by simp_all

text \<open>
  Claim C3: for an option in the table of base URLs, a run over \<open>N\<close> codes that returns
  has exactly \<open>N\<close> records, whose codes are the input codes with their multiplicities;
  for an option that is not in the table the run returns no record.
\<close>

theorem one_record_per_identifier:
  "(map_of base_urls option \<noteq> None \<and> process_skus w option codes = Inr st
      \<longrightarrow> length (results st) = length codes
          \<and> mset (map fst (results st)) = mset codes)
   \<and> (map_of base_urls option = None
      \<longrightarrow> process_skus w option codes = Inr \<lparr>results = [], events = []\<rparr>)"
proof (intro conjI impI)
  assume "map_of base_urls option = None"
  then show "process_skus w option codes = Inr \<lparr>results = [], events = []\<rparr>"
    by (rule unknown_option)
next
  assume a: "map_of base_urls option \<noteq> None \<and> process_skus w option codes = Inr st"
  then obtain base_url where b: "map_of base_urls option = Some base_url"
    by auto
  let ?out = "\<lambda>t. snd (pipeline w base_url option t)"
  let ?gs = "chunks BATCH_SIZE (enumerate 0 codes)"
  have r: "map Inr (results st) = concat (map (\<lambda>g. map ?out (finished w g)) ?gs)"
    using a b process_skus_Inr(2) by blast
  have "length (map Inr (results st) :: (exn + result) list) = length (concat ?gs)"
    unfolding r by (rule length_concat_finished)
  then show "length (results st) = length codes"
    by (simp add: concat_chunks BATCH_SIZE_pos)
  have m: "mset (map Inr (results st) :: (exn + result) list)
             = image_mset ?out (mset (enumerate 0 codes))"
    unfolding r by (simp add: mset_concat_finished concat_chunks BATCH_SIZE_pos)
  let ?code_of = "\<lambda>x :: exn + result. case x of Inl e \<Rightarrow> [] | Inr r \<Rightarrow> fst r"
  have c: "?code_of (?out t) = snd t" if "t \<in># mset (enumerate 0 codes)" for t
  proof -
    from that have "?out t \<in># mset (map Inr (results st) :: (exn + result) list)"
      unfolding m by simp
    then obtain r where o: "?out t = Inr r"
      by auto
    with pipeline_code [OF o] show ?thesis
      by simp
  qed
  have "mset (map fst (results st)) = image_mset ?code_of (mset (map Inr (results st)))"
    by (simp add: multiset.map_comp o_def)
  also have "\<dots> = image_mset (\<lambda>t. ?code_of (?out t)) (mset (enumerate 0 codes))"
    unfolding m by (simp add: multiset.map_comp o_def)
  also have "\<dots> = image_mset snd (mset (enumerate 0 codes))"
    using c by (intro image_mset_cong) blast
  also have "\<dots> = mset codes"
    by (metis map_snd_enumerate mset_map)
  finally show "mset (map fst (results st)) = mset codes" .
qed

lemma sample_run:
  "process_skus sample_world ''efacil'' [''111'', ''222'']
     = Inr \<lparr>results =
              [(''111'', ''https://www.efacil.com.br/loja/busca/?searchTerm=111'', Erro),
               (''222'', ''https://www.efacil.com.br/loja/busca/?searchTerm=222'', Erro)],
            events = [Started 0, Started 1, Completed 0, Progress 2, Completed 1, Progress 2]\<rparr>"
  by (simp add: process_skus_def base_urls_def BATCH_SIZE_def pipeline_def run_batch_def
      fetch_product_page_def build_search_url_def RETRY_COUNT_def numeral_3_eq_3 try_body_def
      always_500_def sample_world_def scheduled_def as_completed_def Let_def)

theorem one_record_per_identifier_witness:
  "map_of base_urls ''efacil'' \<noteq> None
   \<and> process_skus sample_world ''efacil'' [''111'', ''222'']
       = Inr \<lparr>results =
              [(''111'', ''https://www.efacil.com.br/loja/busca/?searchTerm=111'', Erro),
               (''222'', ''https://www.efacil.com.br/loja/busca/?searchTerm=222'', Erro)],
            events = [Started 0, Started 1, Completed 0, Progress 2, Completed 1, Progress 2]\<rparr>
   \<and> length (results
        \<lparr>results =
              [(''111'', ''https://www.efacil.com.br/loja/busca/?searchTerm=111'', Erro),
               (''222'', ''https://www.efacil.com.br/loja/busca/?searchTerm=222'', Erro)],
            events = [Started 0, Started 1, Completed 0, Progress 2, Completed 1, Progress 2]\<rparr>)
       = length [''111'', ''222'']
   \<and> map_of base_urls ''amazon'' = None
   \<and> process_skus sample_world ''amazon'' [''111'', ''222'']
       = Inr \<lparr>results = [], events = []\<rparr>"
proof -
  have a: "map_of base_urls ''efacil'' \<noteq> None" and b: "map_of base_urls ''amazon'' = None"
    by (simp_all add: base_urls_def)
  from a b sample_run
    one_record_per_identifier [of "''efacil''" sample_world "[''111'', ''222'']"]
    one_record_per_identifier [of "''amazon''" sample_world "[''111'', ''222'']"]
  show ?thesis
    by blast
qed

subsection \<open>An option outside the table\<close>

text \<open>
  Claim C4, as the specification states it: for an option that is not in the table the
  run returns no record and signals a fatal run-level failure, which is not silent. The
  source returns the empty list by a plain \<open>return []\<close>: the run for the unknown option
  \<open>amazon\<close> does not raise, and what it returns is what a run of a known option over no
  codes returns.
\<close>

theorem unknown_site_no_failure_signal_counterexample:
  "process_skus sample_world ''amazon'' [''12345''] = Inr \<lparr>results = [], events = []\<rparr>
   \<and> \<not> isl (process_skus sample_world ''amazon'' [''12345''])
   \<and> process_skus sample_world ''amazon'' [''12345''] = process_skus sample_world ''efacil'' []"
  by (simp add: process_skus_def base_urls_def)

text \<open>
  Claim C4, amended: for an option that is not in the table, and any list of codes, the
  run returns at once with the empty list of records: no pipeline is started, the
  callback is never called, and no record, so no \<open>Erro\<close> record, is produced. The run
  returns normally; \<open>process_skus\<close> raises nothing.
\<close>

theorem unknown_site_returns_empty:
  assumes "map_of base_urls option = None"
  shows "process_skus w option codes = Inr \<lparr>results = [], events = []\<rparr>"
  using assms by (simp add: process_skus_def)

theorem unknown_site_returns_empty_witness:
  "map_of base_urls ''amazon'' = None
   \<and> process_skus sample_world ''amazon'' [''12345'', ''67890'']
       = Inr \<lparr>results = [], events = []\<rparr>"
proof -
  have a: "map_of base_urls ''amazon'' = None"
    by (simp add: base_urls_def)
  from a unknown_site_returns_empty [OF a, of sample_world "[''12345'', ''67890'']"]
  show ?thesis
    by (rule conjI)
qed

subsection \<open>The option martins, in a run\<close>

lemma attempts_unbound:
  "attempts session bs base_url code option None n tr = Inl NameError"
  by (cases n) (simp_all add: try_body_def handler_def)

lemma pipeline_martins: "snd (pipeline w base_url ''martins'' t) = Inl NameError"
  by (simp add: pipeline_def fetch_product_page_def build_search_url_def attempts_unbound)

lemma run_batch_martins:
  assumes "g \<noteq> []"
  shows "run_batch w base_url ''martins'' i g st = Inl NameError"
proof -
  let ?ts = "map (pipeline w base_url ''martins'') g"
  have ne: "?ts \<noteq> []"
    using assms by simp
  obtain t ts where c: "as_completed (order w i) ?ts = t # ts" and t: "t \<in> set ?ts"
    unfolding as_completed_def
    using pick_order_nonempty [OF ne, of "order w i" 0] ne
    by (metis length_greater_0_conv mod_less_divisor nth_mem)
  from t have "snd t = Inl NameError"
    using pipeline_martins by auto
  then obtain j where "t = (j, Inl NameError)"
    by (cases t) simp
  with c show ?thesis
    by (simp add: run_batch_def)
qed

text \<open>
  Claim C9: the option \<open>martins\<close> is in the table of base URLs, but the search URL is
  built only for \<open>efacil\<close>. For \<open>martins\<close> the body of the \<open>try\<close> raises \<open>NameError\<close>
  before any request, the handler that logs it raises \<open>NameError\<close> again, the pipeline
  raises for every code, session and number of retries, and so does a run over any
  non-empty list of codes, which therefore produces no record.
\<close>

theorem martins_search_url_unbound:
  "map_of base_urls ''martins'' = Some ''https://www.martinsatacado.com.br''
   \<and> build_search_url base_url code ''martins'' = None
   \<and> try_body session bs base_url code ''martins'' None tr = Inl (NameError, tr)
   \<and> handler None NameError tr = Inl NameError
   \<and> fetch_product_page session bs base_url code ''martins'' retries = Inl NameError
   \<and> process_skus w ''martins'' (code # codes) = Inl NameError"
proof -
  have b: "map_of base_urls ''martins'' = Some ''https://www.martinsatacado.com.br''"
    by (simp add: base_urls_def)
  let ?xs = "enumerate 0 (code # codes)"
  have "chunks BATCH_SIZE ?xs = take BATCH_SIZE ?xs # chunks BATCH_SIZE (drop BATCH_SIZE ?xs)"
    by (rule chunks_step) (simp_all add: BATCH_SIZE_pos)
  moreover have "take BATCH_SIZE ?xs \<noteq> []"
    using BATCH_SIZE_pos by simp
  ultimately have "process_skus w ''martins'' (code # codes) = Inl NameError"
    unfolding process_skus_run_groups [OF b] by (simp add: run_batch_martins)
  then show ?thesis
    by (simp add: b build_search_url_def try_body_def handler_def fetch_product_page_def
        attempts_unbound)
qed

subsection \<open>When every pipeline returns, the run returns\<close>

lemma attempts_returns:
  "\<not> isl (attempts session bs base_url code option (Some u) n tr)"
proof (induction n arbitrary: tr)
  case 0
  show ?case by simp
next
  case (Suc n)
  show ?case
  proof (cases "try_body session bs base_url code option (Some u) tr")
    case (Inl a)
    obtain e tr1 where a: "a = (e, tr1)" by (cases a)
    obtain l where "handler (Some u) e tr1 = Inr (tr1 @ [Log l])"
      using handler_bound by blast
    with Inl a Suc.IH [of "(tr1 @ [Log l]) @ [Sleep 1]"] show ?thesis
      by simp
  next
    case (Inr b)
    obtain tr1 ro where b: "b = (tr1, ro)" by (cases b)
    show ?thesis
    proof (cases ro)
      case None
      with Inr b Suc.IH [of "tr1 @ [Sleep 1]"] show ?thesis by simp
    next
      case (Some r)
      with Inr b show ?thesis by simp
    qed
  qed
qed

lemma pipeline_efacil: "\<not> isl (snd (pipeline w base_url ''efacil'' t))"
  by (simp add: pipeline_def fetch_product_page_def build_search_url_def isl_map_sum
      attempts_returns)

lemma await_each_returns:
  "\<forall>t\<in>set ts. \<not> isl (snd t) \<Longrightarrow> \<not> isl (await_each n ts st)"
proof (induction ts arbitrary: st)
  case Nil
  show ?case by simp
next
  case (Cons t ts)
  obtain j out where t: "t = (j, out)" by (cases t)
  from Cons.prems obtain r where r: "out = Inr r"
    by (cases out) (simp_all add: t)
  from Cons.prems have "\<forall>t\<in>set ts. \<not> isl (snd t)"
    by simp
  from Cons.IH [OF this] show ?case
    by (simp add: t r)
qed

lemma as_completed_set [simp]: "set (as_completed pick xs) = set xs"
  using as_completed_mset [of pick xs] by (metis set_mset_mset)

lemma run_batch_returns:
  assumes "\<forall>t\<in>set g. \<not> isl (snd (pipeline w base_url option t))"
  shows "\<not> isl (run_batch w base_url option i g st)"
  unfolding run_batch_def
  by (rule await_each_returns) (use assms in auto)

lemma run_groups_returns:
  "\<forall>g\<in>set gs. \<forall>t\<in>set g. \<not> isl (snd (pipeline w base_url option t)) \<Longrightarrow>
   \<not> isl (run_groups w base_url option gs st)"
proof (induction gs arbitrary: st)
  case Nil
  show ?case by simp
next
  case (Cons g gs)
  then have "\<forall>t\<in>set g. \<not> isl (snd (pipeline w base_url option t))"
    by simp
  then obtain st1 where "run_batch w base_url option (fst (last g)) g st = Inr st1"
    using run_batch_returns [of g w base_url option "fst (last g)" st]
    by (cases "run_batch w base_url option (fst (last g)) g st") simp_all
  moreover have "\<not> isl (run_groups w base_url option gs st1)"
    using Cons.prems by (intro Cons.IH) simp
  ultimately show ?case
    by simp
qed

lemma efacil_base_url: "map_of base_urls ''efacil'' = Some ''https://www.efacil.com.br''"
  by (simp add: base_urls_def)

lemma process_skus_returns:
  assumes "map_of base_urls option = Some base_url"
    and "\<forall>t\<in>set (enumerate 0 codes). \<not> isl (snd (pipeline w base_url option t))"
  shows "\<exists>st. process_skus w option codes = Inr st"
proof -
  let ?gs = "chunks BATCH_SIZE (enumerate 0 codes)"
  have "set (concat ?gs) = set (enumerate 0 codes)"
    by (simp only: concat_chunks [OF BATCH_SIZE_pos])
  with assms(2) have "\<forall>g\<in>set ?gs. \<forall>t\<in>set g. \<not> isl (snd (pipeline w base_url option t))"
    by auto
  then have "\<not> isl (process_skus w option codes)"
    unfolding process_skus_run_groups [OF assms(1)] by (rule run_groups_returns)
  then show ?thesis
    by (cases "process_skus w option codes") simp_all
qed

lemma process_skus_efacil: "\<exists>st. process_skus w ''efacil'' codes = Inr st"
  using efacil_base_url by (rule process_skus_returns) (simp add: pipeline_efacil)

subsection \<open>A run over two batches\<close>

text \<open>
  The fifty-one sample codes in the world where the pipelines of a batch are scheduled
  in the order 2, 3, ..., 49, 0, 1 and finish in the order 1, 2, ..., 49, 0.
\<close>

lemma sample_pipelines:
  "\<forall>t\<in>set (enumerate 0 sample_codes).
     \<not> isl (snd (pipeline shuffled_world ''https://www.efacil.com.br'' ''efacil'' t))"
  by (simp add: pipeline_efacil)

lemma sample_events:
  "concat (map (batch_events shuffled_world) (chunks BATCH_SIZE (enumerate 0 sample_codes)))
     = map Started ([2..<50] @ [0, 1])
       @ concat (map (\<lambda>j. [Completed j, Progress 50]) ([1..<50] @ [0]))
       @ [Started 50, Completed 50, Progress 51]"
  by code_simp

lemma sample_results:
  "concat (map (\<lambda>g. map (\<lambda>t. snd (pipeline shuffled_world ''https://www.efacil.com.br''
                                    ''efacil'' t))
                    (finished shuffled_world g))
             (chunks BATCH_SIZE (enumerate 0 sample_codes)))
     = map Inr
         (map (\<lambda>j. (sample_codes ! j,
                    ''https://www.efacil.com.br/loja/busca/?searchTerm='' @ sample_codes ! j,
                    Erro))
            ([1..<50] @ [0, 50]))"
  by code_simp

subsection \<open>Pipelines in flight\<close>

lemma in_flight_ok_append:
  "in_flight_ok b c (xs @ ys) = (in_flight_ok b c xs \<and> in_flight_ok b (in_flight c xs) ys)"
  by (induction b c xs rule: in_flight_ok.induct) simp_all

lemma in_flight_append: "in_flight c (xs @ ys) = in_flight (in_flight c xs) ys"
  by (induction c xs rule: in_flight.induct) simp_all

lemma in_flight_started:
  "in_flight c (map (\<lambda>t. Started (fst t)) g) = c + length g"
  by (induction g arbitrary: c) simp_all

lemma in_flight_ok_started:
  "c + length g \<le> b \<Longrightarrow> in_flight_ok b c (map (\<lambda>t. Started (fst t)) g)"
  by (induction g arbitrary: c) simp_all

lemma in_flight_completed:
  "in_flight c (concat (map (\<lambda>t. [Completed (fst t), Progress v]) ts)) = c - length ts"
  by (induction ts arbitrary: c) simp_all

lemma in_flight_ok_completed:
  "in_flight_ok b c (concat (map (\<lambda>t. [Completed (fst t), Progress v]) ts))"
  by (induction ts arbitrary: c) simp_all

lemma in_flight_batch:
  "length g \<le> b \<Longrightarrow>
   in_flight_ok b 0 (batch_events w g) \<and> in_flight 0 (batch_events w g) = 0"
  by (simp add: batch_events_def in_flight_ok_append in_flight_append in_flight_started
      in_flight_ok_started in_flight_completed in_flight_ok_completed)

lemma in_flight_batches:
  "\<forall>g\<in>set gs. length g \<le> b \<Longrightarrow>
   in_flight_ok b 0 (concat (map (batch_events w) gs))
   \<and> in_flight 0 (concat (map (batch_events w) gs)) = 0"
proof (induction gs)
  case Nil
  then show ?case by simp
next
  case (Cons g gs)
  then have "length g \<le> b" and "\<forall>g\<in>set gs. length g \<le> b"
    by simp_all
  with in_flight_batch [of g b w] Cons.IH show ?case
    by (simp add: in_flight_ok_append in_flight_append)
qed

text \<open>
  Claim C8: when the base URL resolves and every pipeline returns (as every pipeline of
  the option \<open>efacil\<close> does), the run returns, and the groups are the contiguous pieces
  of at most \<open>BATCH_SIZE\<close> codes of the input list. The events of the run are the events
  of the groups one after the other, and in each group every pipeline of the group is
  scheduled, in an order the event loop decides, and then every pipeline of the group
  completes before the next group starts; so never more than \<open>BATCH_SIZE\<close> pipelines
  are in flight. The records are those of the first group in the order its pipelines
  finished, then those of the second group, and so on.
\<close>

theorem batches_sequential_and_bounded:
  assumes "map_of base_urls option = Some base_url"
    and "\<forall>t\<in>set (enumerate 0 codes). \<not> isl (snd (pipeline w base_url option t))"
  shows "\<exists>st. process_skus w option codes = Inr st
    \<and> concat (chunks BATCH_SIZE (enumerate 0 codes)) = enumerate 0 codes
    \<and> (\<forall>g\<in>set (chunks BATCH_SIZE (enumerate 0 codes)).
          g \<noteq> [] \<and> length g \<le> BATCH_SIZE
          \<and> mset (launched w g) = mset g \<and> mset (finished w g) = mset g)
    \<and> events st = concat (map (batch_events w) (chunks BATCH_SIZE (enumerate 0 codes)))
    \<and> in_flight_ok BATCH_SIZE 0 (events st)
    \<and> map Inr (results st)
        = concat (map (\<lambda>g. map (\<lambda>t. snd (pipeline w base_url option t)) (finished w g))
            (chunks BATCH_SIZE (enumerate 0 codes)))"
proof -
  let ?gs = "chunks BATCH_SIZE (enumerate 0 codes)"
  obtain st where st: "process_skus w option codes = Inr st"
    using process_skus_returns [OF assms] by blast
  have sizes: "\<forall>g\<in>set ?gs. g \<noteq> [] \<and> length g \<le> BATCH_SIZE"
    using chunks_sizes [OF BATCH_SIZE_pos] by blast
  then have groups: "\<forall>g\<in>set ?gs. g \<noteq> [] \<and> length g \<le> BATCH_SIZE
      \<and> mset (launched w g) = mset g \<and> mset (finished w g) = mset g"
    by simp
  have ev: "events st = concat (map (batch_events w) ?gs)"
    using st assms(1) by (rule process_skus_Inr(1))
  have "in_flight_ok BATCH_SIZE 0 (concat (map (batch_events w) ?gs))"
    using in_flight_batches [of ?gs BATCH_SIZE w] sizes by blast
  then have fl: "in_flight_ok BATCH_SIZE 0 (events st)"
    by (simp only: ev)
  have rs: "map Inr (results st)
        = concat (map (\<lambda>g. map (\<lambda>t. snd (pipeline w base_url option t)) (finished w g)) ?gs)"
    using st assms(1) by (rule process_skus_Inr(2))
  from st concat_chunks [OF BATCH_SIZE_pos, of "enumerate 0 codes"] groups ev fl rs
  show ?thesis
    by blast
qed

text \<open>
  The theorem on the run over two batches: fifty pipelines are scheduled and complete,
  with the callback at 50, before the pipeline of the last code is scheduled; the
  records come in the order of completion.
\<close>

theorem batches_sequential_and_bounded_witness:
  "\<exists>st. process_skus shuffled_world ''efacil'' sample_codes = Inr st
     \<and> events st
         = map Started ([2..<50] @ [0, 1])
           @ concat (map (\<lambda>j. [Completed j, Progress 50]) ([1..<50] @ [0]))
           @ [Started 50, Completed 50, Progress 51]
     \<and> in_flight_ok BATCH_SIZE 0 (events st)
     \<and> results st
         = map (\<lambda>j. (sample_codes ! j,
                     ''https://www.efacil.com.br/loja/busca/?searchTerm='' @ sample_codes ! j,
                     Erro))
             ([1..<50] @ [0, 50])"
proof -
  from batches_sequential_and_bounded [OF efacil_base_url sample_pipelines]
  obtain st where
    st: "process_skus shuffled_world ''efacil'' sample_codes = Inr st" and
    ev: "events st = concat (map (batch_events shuffled_world)
           (chunks BATCH_SIZE (enumerate 0 sample_codes)))" and
    fl: "in_flight_ok BATCH_SIZE 0 (events st)" and
    rs: "map Inr (results st)
           = concat (map (\<lambda>g. map (\<lambda>t. snd (pipeline shuffled_world
                   ''https://www.efacil.com.br'' ''efacil'' t)) (finished shuffled_world g))
               (chunks BATCH_SIZE (enumerate 0 sample_codes)))"
    by blast
  have "map Inr (results st) = (map Inr
         (map (\<lambda>j. (sample_codes ! j,
                    ''https://www.efacil.com.br/loja/busca/?searchTerm='' @ sample_codes ! j,
                    Erro))
            ([1..<50] @ [0, 50])) :: (exn + result) list)"
    using rs by (simp only: sample_results)
  then have rs': "results st
         = map (\<lambda>j. (sample_codes ! j,
                     ''https://www.efacil.com.br/loja/busca/?searchTerm='' @ sample_codes ! j,
                     Erro))
             ([1..<50] @ [0, 50])"
    by (simp only: inj_map_eq_map [OF inj_Inr])
  note ev' = ev [unfolded sample_events]
  show ?thesis
    by (rule exI [of _ st]) (rule conjI st ev' fl rs')+
qed

subsection \<open>The values passed to the callback\<close>

lemma progress_values_append:
  "progress_values (xs @ ys) = progress_values xs @ progress_values ys"
  by (induction xs rule: progress_values.induct) simp_all

lemma progress_values_started: "progress_values (map (\<lambda>t. Started (fst t)) g) = []"
  by (induction g) simp_all

lemma progress_values_completed:
  "progress_values (concat (map (\<lambda>t. [Completed (fst t), Progress v]) ts))
     = replicate (length ts) v"
  by (induction ts) simp_all

lemma progress_values_batch:
  "progress_values (batch_events w g) = replicate (length g) (Suc (fst (last g)))"
  by (simp add: batch_events_def progress_values_append progress_values_started
      progress_values_completed)

lemma progress_values_batches:
  "progress_values (concat (map (batch_events w) gs))
     = concat (map (\<lambda>g. replicate (length g) (Suc (fst (last g)))) gs)"
  by (induction gs) (simp_all add: progress_values_append progress_values_batch)

lemma sorted_concat_replicate:
  "sorted (map v gs) \<Longrightarrow> sorted (concat (map (\<lambda>g. replicate (length g) (v g)) gs))"
proof (induction gs)
  case Nil
  then show ?case by simp
next
  case (Cons g gs)
  then have le: "\<forall>h\<in>set gs. v g \<le> v h" and s: "sorted (map v gs)"
    by simp_all
  have "\<forall>y\<in>set (concat (map (\<lambda>g. replicate (length g) (v g)) gs)). v g \<le> y"
    using le by auto
  with Cons.IH [OF s] show ?case
    by (simp add: sorted_append)
qed

lemma last_concat_replicate:
  assumes "gs \<noteq> []" and "last gs \<noteq> []"
  shows "last (concat (map (\<lambda>g. replicate (length g) (v g)) gs)) = v (last gs)"
proof -
  from assms(1) obtain ys y where gs: "gs = ys @ [y]"
    by (cases gs rule: rev_cases) auto
  with assms(2) have "y \<noteq> []"
    by simp
  then show ?thesis
    by (simp add: gs)
qed

lemma min_step: "a < l \<Longrightarrow> min l (a + n) = min l a + min n (l - a)" for a l n :: nat
  by (auto simp: min_def)

lemma group_counter_sorted:
  assumes "0 < n"
  shows "sorted (map (\<lambda>g. Suc (fst (last g))) (chunks n (enumerate 0 cs)))"
proof -
  let ?gs = "chunks n (enumerate 0 cs)"
  have "Suc (fst (last (?gs ! i))) \<le> Suc (fst (last (?gs ! j)))"
    if "i \<le> j" and "j < length ?gs" for i j
  proof -
    from that have i: "i < length ?gs" by simp
    have "min (length cs) (Suc i * n) \<le> min (length cs) (Suc j * n)"
      using that(1) by (simp add: min.coboundedI2)
    then show ?thesis
      using group_last [OF assms i] group_last [OF assms that(2)] by simp
  qed
  then show ?thesis
    by (simp add: sorted_iff_nth_mono)
qed

lemma group_counter_step:
  assumes "0 < n" and "Suc m < length (chunks n (enumerate 0 cs))"
  shows "Suc (fst (last (chunks n (enumerate 0 cs) ! Suc m)))
           = Suc (fst (last (chunks n (enumerate 0 cs) ! m)))
             + length (chunks n (enumerate 0 cs) ! Suc m)"
proof -
  from assms(2) have m: "m < length (chunks n (enumerate 0 cs))"
    by simp
  have lt: "Suc m * n < length cs"
    using group_length(2) [OF assms] .
  have e: "Suc (Suc m) * n = Suc m * n + n"
    by simp
  have "min (length cs) (Suc (Suc m) * n)
          = min (length cs) (Suc m * n) + min n (length cs - Suc m * n)"
    unfolding e using lt by (rule min_step)
  then show ?thesis
    using group_last [OF assms] group_last [OF assms(1) m] group_length(1) [OF assms]
    by simp
qed

lemma group_counter_last:
  assumes "0 < n" and "cs \<noteq> []"
  shows "chunks n (enumerate 0 cs) \<noteq> []"
    and "last (chunks n (enumerate 0 cs)) \<noteq> []"
    and "Suc (fst (last (last (chunks n (enumerate 0 cs))))) = length cs"
proof -
  let ?gs = "chunks n (enumerate 0 cs)"
  show ne: "?gs \<noteq> []"
    using assms by (cases cs) (simp_all add: chunks_step)
  then have mem: "last ?gs \<in> set ?gs"
    by simp
  then show "last ?gs \<noteq> []"
    using chunks_sizes [OF assms(1)] by blast
  let ?m = "length ?gs - 1"
  have m: "?m < length ?gs"
    using ne by simp
  have "\<not> Suc ?m < length ?gs"
    by simp
  then have "\<not> Suc ?m * n < length cs"
    using chunks_length_iff [OF assms(1), of "Suc ?m" "enumerate 0 cs"] by simp
  then have "min (length cs) (Suc ?m * n) = length cs"
    by simp
  then show "Suc (fst (last (last ?gs))) = length cs"
    using group_last [OF assms(1) m] ne by (simp add: last_conv_nth)
qed

text \<open>
  Claim C10: in a run that returns, the calls of the callback made for a group all carry
  the same value, one plus the index in the input list of the last code of the group. So
  the values passed along the run never decrease, the value of a group is the value of
  the group before plus the size of the group, and for a non-empty input the last value
  is the number of codes.
\<close>

theorem progress_values_by_group:
  assumes "process_skus w option codes = Inr st"
    and "map_of base_urls option = Some base_url"
  shows "progress_values (events st)
           = concat (map (\<lambda>g. replicate (length g) (Suc (fst (last g))))
               (chunks BATCH_SIZE (enumerate 0 codes)))
    \<and> sorted (progress_values (events st))
    \<and> (\<forall>m. Suc m < length (chunks BATCH_SIZE (enumerate 0 codes)) \<longrightarrow>
          Suc (fst (last (chunks BATCH_SIZE (enumerate 0 codes) ! Suc m)))
            = Suc (fst (last (chunks BATCH_SIZE (enumerate 0 codes) ! m)))
              + length (chunks BATCH_SIZE (enumerate 0 codes) ! Suc m))
    \<and> (codes \<noteq> [] \<longrightarrow> last (progress_values (events st)) = length codes)"
proof -
  let ?gs = "chunks BATCH_SIZE (enumerate 0 codes)"
  let ?v = "\<lambda>g :: (nat \<times> string) list. Suc (fst (last g))"
  have ev: "events st = concat (map (batch_events w) ?gs)"
    using assms by (rule process_skus_Inr(1))
  have pv: "progress_values (events st) = concat (map (\<lambda>g. replicate (length g) (?v g)) ?gs)"
    unfolding ev by (rule progress_values_batches)
  have so: "sorted (progress_values (events st))"
    unfolding pv using group_counter_sorted [OF BATCH_SIZE_pos] by (rule sorted_concat_replicate)
  have st: "\<forall>m. Suc m < length ?gs \<longrightarrow> ?v (?gs ! Suc m) = ?v (?gs ! m) + length (?gs ! Suc m)"
    using group_counter_step [OF BATCH_SIZE_pos] by blast
  have la: "codes \<noteq> [] \<longrightarrow> last (progress_values (events st)) = length codes"
  proof
    assume ne: "codes \<noteq> []"
    have "last (concat (map (\<lambda>g. replicate (length g) (?v g)) ?gs)) = ?v (last ?gs)"
      using group_counter_last(1,2) [OF BATCH_SIZE_pos ne] by (rule last_concat_replicate)
    then show "last (progress_values (events st)) = length codes"
      unfolding pv using group_counter_last(3) [OF BATCH_SIZE_pos ne] by simp
  qed
  from pv so st la show ?thesis
    by (intro conjI)
qed

text \<open>
  The theorem on a run over two batches: fifty calls with 50, then one call with 51.
\<close>

theorem progress_values_by_group_witness:
  "\<exists>st. process_skus sample_world ''efacil'' (replicate 51 ''7'') = Inr st
     \<and> progress_values (events st) = replicate 50 50 @ [51]
     \<and> sorted (progress_values (events st))
     \<and> last (progress_values (events st)) = 51"
proof -
  obtain st where st: "process_skus sample_world ''efacil'' (replicate 51 ''7'') = Inr st"
    using process_skus_efacil by blast
  note t = progress_values_by_group [OF st efacil_base_url]
  have c: "concat (map (\<lambda>g. replicate (length g) (Suc (fst (last g))))
             (chunks BATCH_SIZE (enumerate 0 (replicate 51 ''7'')))) = replicate 50 50 @ [51]"
    by code_simp
  have 1: "progress_values (events st) = replicate 50 50 @ [51]"
    using t c by simp
  have 2: "sorted (progress_values (events st))"
    using t by blast
  from t have "replicate 51 ''7'' \<noteq> []
      \<longrightarrow> last (progress_values (events st)) = length (replicate 51 ''7'')"
    by blast
  then have 3: "last (progress_values (events st)) = 51"
    by simp
  from st 1 2 3 show ?thesis
    by blast
qed

subsection \<open>The value passed after a completion\<close>

lemma progress_after_started:
  "progress_after f (map (\<lambda>t. Started (fst t)) g @ es) = progress_after f es"
  by (induction g) simp_all

lemma progress_after_completed:
  "\<forall>t\<in>set ts. f (fst t) = v \<Longrightarrow>
   progress_after f (concat (map (\<lambda>t. [Completed (fst t), Progress v]) ts) @ es)
     = progress_after f es"
  by (induction ts) simp_all

lemma progress_after_batch:
  assumes "\<forall>t\<in>set g. f (fst t) = Suc (fst (last g))"
  shows "progress_after f (batch_events w g @ es) = progress_after f es"
  using assms progress_after_completed [of "finished w g" f "Suc (fst (last g))" es]
  by (simp add: batch_events_def progress_after_started)

lemma progress_after_batches:
  "\<forall>g\<in>set gs. \<forall>t\<in>set g. f (fst t) = Suc (fst (last g)) \<Longrightarrow>
   progress_after f (concat (map (batch_events w) gs))"
  by (induction gs) (simp_all add: progress_after_batch)

lemma group_of_member:
  assumes "g \<in> set (chunks BATCH_SIZE (enumerate 0 codes))" and "t \<in> set g"
  shows "group_of codes (fst t) = g"
proof -
  let ?gs = "chunks BATCH_SIZE (enumerate 0 codes)"
  from assms(1) obtain m where m: "m < length ?gs" and g: "g = ?gs ! m"
    by (auto simp: in_set_conv_nth)
  from assms(2) obtain i where i: "i < length g" and t: "t = g ! i"
    by (auto simp: in_set_conv_nth)
  have "i < BATCH_SIZE"
    using i group_length(1) [OF BATCH_SIZE_pos m] g by simp
  moreover have "fst t = m * BATCH_SIZE + i"
    using group_nth [OF BATCH_SIZE_pos m] i g t by simp
  ultimately have "fst t div BATCH_SIZE = m"
    by simp
  then show ?thesis
    by (simp add: group_of_def g)
qed

lemma group_of_index:
  assumes "j < length codes"
  shows "(j, codes ! j) \<in> set (group_of codes j)"
    and "dispatch_counter codes j = min (length codes) (Suc (j div BATCH_SIZE) * BATCH_SIZE)"
proof -
  let ?gs = "chunks BATCH_SIZE (enumerate 0 codes)"
  let ?m = "j div BATCH_SIZE"
  have le: "?m * BATCH_SIZE \<le> j"
    by simp
  from le assms have "?m * BATCH_SIZE < length codes"
    by (rule le_less_trans)
  then have "?m * BATCH_SIZE < length (enumerate 0 codes)"
    by simp
  then have m: "?m < length ?gs"
    using chunks_length_iff [OF BATCH_SIZE_pos] by blast
  have len: "length (?gs ! ?m) = min BATCH_SIZE (length codes - ?m * BATCH_SIZE)"
    using group_length(1) [OF BATCH_SIZE_pos m] .
  have jm: "j = ?m * BATCH_SIZE + j mod BATCH_SIZE"
    by simp
  have "j mod BATCH_SIZE < BATCH_SIZE"
    using BATCH_SIZE_pos by simp
  moreover have "j mod BATCH_SIZE < length codes - ?m * BATCH_SIZE"
    using assms jm by linarith
  ultimately have i: "j mod BATCH_SIZE < length (?gs ! ?m)"
    using len by simp
  have "?gs ! ?m ! (j mod BATCH_SIZE) = enumerate 0 codes ! j"
    using i m jm by (simp add: chunks_nth BATCH_SIZE_pos)
  also have "\<dots> = (j, codes ! j)"
    using assms by (simp add: nth_enumerate_eq)
  finally have "(j, codes ! j) = ?gs ! ?m ! (j mod BATCH_SIZE)"
    by simp
  with i show "(j, codes ! j) \<in> set (group_of codes j)"
    unfolding group_of_def by (metis nth_mem)
  show "dispatch_counter codes j = min (length codes) (Suc (j div BATCH_SIZE) * BATCH_SIZE)"
    unfolding dispatch_counter_def group_of_def by (rule group_last [OF BATCH_SIZE_pos m])
qed

lemma completions_append: "completions (xs @ ys) = completions xs @ completions ys"
  by (induction xs rule: completions.induct) simp_all

lemma completions_started: "completions (map (\<lambda>t. Started (fst t)) g) = []"
  by (induction g) simp_all

lemma completions_completed:
  "completions (concat (map (\<lambda>t. [Completed (fst t), Progress v]) ts)) = map fst ts"
  by (induction ts) simp_all

lemma completions_batches:
  "completions (concat (map (batch_events w) gs))
     = concat (map (\<lambda>g. map fst (finished w g)) gs)"
  by (induction gs)
     (simp_all add: batch_events_def completions_append completions_started
        completions_completed)

lemma length_concat_replicate:
  "length (concat (map (\<lambda>g. replicate (length g) (v g)) gs)) = length (concat gs)"
  by (induction gs) simp_all

lemma results_by_completion:
  "\<forall>g\<in>set gs. \<forall>t\<in>set g. snd t = codes ! fst t \<Longrightarrow>
   concat (map (\<lambda>g. map f (finished w g)) gs)
     = map (\<lambda>j. f (j, codes ! j)) (concat (map (\<lambda>g. map fst (finished w g)) gs))"
proof (induction gs)
  case Nil
  show ?case by simp
next
  case (Cons g gs)
  then have "\<forall>t\<in>set (finished w g). f t = f (fst t, codes ! fst t)"
    by (metis list.set_intros(1) prod.collapse set_finished)
  then have "map f (finished w g) = map (\<lambda>j. f (j, codes ! j)) (map fst (finished w g))"
    by simp
  moreover have "concat (map (\<lambda>g. map f (finished w g)) gs)
     = map (\<lambda>j. f (j, codes ! j)) (concat (map (\<lambda>g. map fst (finished w g)) gs))"
    using Cons.prems by (intro Cons.IH) simp
  ultimately show ?case
    by simp
qed

text \<open>
  Claim C7, as the specification states it: after the completion of an identifier the
  callback receives the position of that identifier in the loop that built the groups.
  In a run of two codes the callback receives 2 after the completion of the code at
  index 0, which is neither its position counted from one nor counted from zero.
\<close>

theorem progress_is_not_position_counterexample:
  "events_of (process_skus sample_world ''efacil'' [''111'', ''222''])
     = [Started 0, Started 1, Completed 0, Progress 2, Completed 1, Progress 2]
   \<and> \<not> progress_after Suc (events_of (process_skus sample_world ''efacil'' [''111'', ''222'']))
   \<and> \<not> progress_after id (events_of (process_skus sample_world ''efacil'' [''111'', ''222'']))"
  by (simp add: sample_run events_of_def)

text \<open>
  Claim C7, amended: when the base URL resolves and every pipeline returns, the run
  returns; every identifier completes exactly once, the records are the results of the
  pipelines in the order of the completions, and each completion is followed at once by
  exactly one call of the callback, so the callback is called once per identifier. The
  value passed is the loop counter \<open>i + 1\<close> at the moment the group of the completed
  identifier was flushed: one plus the index of the last code of that group,
  \<open>min N ((j div BATCH_SIZE + 1) * BATCH_SIZE)\<close> for the identifier at index \<open>j\<close> of \<open>N\<close>.
  It is not the identifier's own position, and it does not depend on how many pipelines
  have completed.
\<close>

theorem progress_is_dispatch_counter:
  assumes "map_of base_urls option = Some base_url"
    and "\<forall>t\<in>set (enumerate 0 codes). \<not> isl (snd (pipeline w base_url option t))"
  shows "\<exists>st. process_skus w option codes = Inr st
    \<and> progress_after (dispatch_counter codes) (events st)
    \<and> mset (completions (events st)) = mset [0..<length codes]
    \<and> map Inr (results st)
        = map (\<lambda>j. snd (pipeline w base_url option (j, codes ! j))) (completions (events st))
    \<and> length (progress_values (events st)) = length codes
    \<and> (\<forall>j<length codes.
          (j, codes ! j) \<in> set (group_of codes j)
          \<and> dispatch_counter codes j
              = min (length codes) (Suc (j div BATCH_SIZE) * BATCH_SIZE))"
proof -
  let ?gs = "chunks BATCH_SIZE (enumerate 0 codes)"
  let ?out = "\<lambda>t. snd (pipeline w base_url option t)"
  obtain st where st: "process_skus w option codes = Inr st"
    using process_skus_returns [OF assms] by blast
  have ev: "events st = concat (map (batch_events w) ?gs)"
    using st assms(1) by (rule process_skus_Inr(1))
  have rs: "map Inr (results st) = concat (map (\<lambda>g. map ?out (finished w g)) ?gs)"
    using st assms(1) by (rule process_skus_Inr(2))
  have cc: "concat ?gs = enumerate 0 codes"
    using BATCH_SIZE_pos by (rule concat_chunks)
  have "\<forall>g\<in>set ?gs. \<forall>t\<in>set g. dispatch_counter codes (fst t) = Suc (fst (last g))"
    by (simp add: dispatch_counter_def group_of_member)
  then have pa: "progress_after (dispatch_counter codes) (events st)"
    unfolding ev by (rule progress_after_batches)
  have co: "completions (events st) = concat (map (\<lambda>g. map fst (finished w g)) ?gs)"
    unfolding ev by (rule completions_batches)
  have "mset (completions (events st)) = image_mset fst (mset (concat ?gs))"
    unfolding co by (rule mset_concat_finished)
  also have "\<dots> = mset (map fst (enumerate 0 codes))"
    by (simp only: cc mset_map)
  finally have ms: "mset (completions (events st)) = mset [0..<length codes]"
    by simp
  have "\<forall>g\<in>set ?gs. \<forall>t\<in>set g. snd t = codes ! fst t"
  proof (intro ballI)
    fix g t
    assume "g \<in> set ?gs" and "t \<in> set g"
    then have "t \<in> set (concat ?gs)"
      by auto
    then have "t \<in> set (enumerate 0 codes)"
      by (simp only: cc)
    then show "snd t = codes ! fst t"
      by (simp add: in_set_enumerate_eq)
  qed
  then have re: "map Inr (results st)
        = map (\<lambda>j. ?out (j, codes ! j)) (completions (events st))"
    unfolding rs co by (rule results_by_completion)
  have "progress_values (events st)
          = concat (map (\<lambda>g. replicate (length g) (Suc (fst (last g)))) ?gs)"
    unfolding ev by (rule progress_values_batches)
  then have "length (progress_values (events st)) = length (concat ?gs)"
    by (simp only: length_concat_replicate)
  then have le: "length (progress_values (events st)) = length codes"
    by (simp only: cc length_enumerate)
  from st pa ms re le group_of_index show ?thesis
    by blast
qed

text \<open>
  The theorem on the run over two batches: the fifty completions of the first batch are
  each followed by the callback at 50, whichever pipeline completed, and the completion
  of the last code by the callback at 51.
\<close>

theorem progress_is_dispatch_counter_witness:
  "\<exists>st. process_skus shuffled_world ''efacil'' sample_codes = Inr st
     \<and> progress_after (dispatch_counter sample_codes) (events st)
     \<and> completions (events st) = [1..<50] @ [0, 50]
     \<and> progress_values (events st) = replicate 50 50 @ [51]
     \<and> length (results st) = 51
     \<and> dispatch_counter sample_codes 0 = 50
     \<and> dispatch_counter sample_codes 50 = 51"
proof -
  from progress_is_dispatch_counter [OF efacil_base_url sample_pipelines]
  obtain st where
    st: "process_skus shuffled_world ''efacil'' sample_codes = Inr st" and
    pa: "progress_after (dispatch_counter sample_codes) (events st)" and
    re: "map Inr (results st)
           = map (\<lambda>j. snd (pipeline shuffled_world ''https://www.efacil.com.br'' ''efacil''
                            (j, sample_codes ! j))) (completions (events st))" and
    le: "length (progress_values (events st)) = length sample_codes"
    by blast
  have ev: "events st
         = map Started ([2..<50] @ [0, 1])
           @ concat (map (\<lambda>j. [Completed j, Progress 50]) ([1..<50] @ [0]))
           @ [Started 50, Completed 50, Progress 51]"
    using process_skus_Inr(1) [OF st efacil_base_url] by (simp only: sample_events)
  have co: "completions (events st) = [1..<50] @ [0, 50]"
    unfolding ev by code_simp
  have pv: "progress_values (events st) = replicate 50 50 @ [51]"
    unfolding ev by code_simp
  have "length (map Inr (results st) :: (exn + result) list) = length ([1..<50] @ [0, 50 :: nat])"
    unfolding re co by (simp only: length_map)
  then have lr: "length (results st) = 51"
    by simp
  have d0: "dispatch_counter sample_codes 0 = 50"
    by code_simp
  have d1: "dispatch_counter sample_codes 50 = 51"
    by code_simp
  from st pa co pv lr d0 d1 show ?thesis
    by blast
qed

end
